theory Spec2Isabelle
  imports Complex_Main "HOL-Library.Word"
begin

unbundle bit_operations_syntax

section \<open>JavaScript numbers used by the packet codec\<close>

text \<open>
  The packet helpers of \<^verbatim>\<open>src/App.jsx\<close> work on integer-valued JavaScript numbers.
  The bitwise operators first convert each operand to a signed 32-bit integer (ToInt32),
  mask the shift count to five bits, and return a signed 32-bit integer. A store into a
  \<^verbatim>\<open>Uint8Array\<close> keeps the value modulo 256.
\<close>

definition toInt32 :: "int \<Rightarrow> int" where
  "toInt32 x = signed_take_bit 31 x"

definition toUint8 :: "int \<Rightarrow> int" where
  "toUint8 x = x mod 256"

definition js_shr :: "int \<Rightarrow> nat \<Rightarrow> int" where
  \<comment> \<open>\<^verbatim>\<open>x >> n\<close>, the sign-propagating shift\<close>
  "js_shr x n = drop_bit (n mod 32) (toInt32 x)"

definition js_shl :: "int \<Rightarrow> nat \<Rightarrow> int" where
  \<comment> \<open>\<^verbatim>\<open>x << n\<close>\<close>
  "js_shl x n = toInt32 (push_bit (n mod 32) (toInt32 x))"

definition js_and :: "int \<Rightarrow> int \<Rightarrow> int" where
  \<comment> \<open>\<^verbatim>\<open>x & y\<close>\<close>
  "js_and x y = toInt32 x AND toInt32 y"

definition js_or :: "int \<Rightarrow> int \<Rightarrow> int" where
  \<comment> \<open>\<^verbatim>\<open>x | y\<close>\<close>
  "js_or x y = toInt32 x OR toInt32 y"

definition js_slice :: "'a list \<Rightarrow> int \<Rightarrow> int \<Rightarrow> 'a list" where
  \<comment> \<open>\<^verbatim>\<open>xs.slice(start, end)\<close>: a negative bound counts from the end, both bounds are
      clamped to the length, and an empty range gives the empty sequence\<close>
  "js_slice xs start end' =
     (let len = int (length xs);
          k = (if start < 0 then max (len + start) 0 else min start len);
          fin = (if end' < 0 then max (len + end') 0 else min end' len)
      in take (nat (fin - k)) (drop (nat k) xs))"

section \<open>Packet helpers\<close>

definition MAGIC :: "int list" where
  "MAGIC = [0x41, 0x43, 0x53, 0x54]"

definition TYPE_TEXT :: int where
  "TYPE_TEXT = 0x54"

definition TYPE_IMAGE :: int where
  "TYPE_IMAGE = 0x49"

definition HEADER_LEN :: nat where
  "HEADER_LEN = 16"

record header =
  type :: int
  payloadLen :: int
  imgW :: int
  imgH :: int

text \<open>
  \<^verbatim>\<open>buildHeader\<close> fills a zero-initialised \<^verbatim>\<open>Uint8Array(16)\<close>; bytes 13 to 15 are never
  written and stay 0.
\<close>

definition buildHeader :: "int \<Rightarrow> int \<Rightarrow> int \<Rightarrow> int \<Rightarrow> int list" where
  "buildHeader ty len w h = map toUint8
     [MAGIC ! 0, MAGIC ! 1, MAGIC ! 2, MAGIC ! 3,
      ty,
      js_and (js_shr len 24) 0xff, js_and (js_shr len 16) 0xff,
      js_and (js_shr len 8) 0xff, js_and len 0xff,
      js_and (js_shr w 8) 0xff, js_and w 0xff,
      js_and (js_shr h 8) 0xff, js_and h 0xff,
      0, 0, 0]"

definition parseHeader :: "int list \<Rightarrow> header option" where
  "parseHeader bytes =
     (if length bytes < HEADER_LEN then None
      else if list_ex (\<lambda>i. bytes ! i \<noteq> MAGIC ! i) [0..<4] then None
      else Some \<lparr>
        type = bytes ! 4,
        payloadLen = js_or (js_or (js_or (js_shl (bytes ! 5) 24) (js_shl (bytes ! 6) 16))
                                  (js_shl (bytes ! 7) 8))
                           (bytes ! 8),
        imgW = js_or (js_shl (bytes ! 9) 8) (bytes ! 10),
        imgH = js_or (js_shl (bytes ! 11) 8) (bytes ! 12) \<rparr>)"

fun bytesToNibbles :: "int list \<Rightarrow> int list" where
  "bytesToNibbles [] = []"
| "bytesToNibbles (b # bs) = js_and (js_shr b 4) 0xf # js_and b 0xf # bytesToNibbles bs"

text \<open>
  The loop of \<^verbatim>\<open>nibblesToBytes\<close> advances by two while \<^verbatim>\<open>i + 1 < nibbles.length\<close>, so a
  trailing unpaired nibble is never read.
\<close>

fun nibblesToBytes :: "int list \<Rightarrow> int list" where
  "nibblesToBytes (hi # lo # ns) =
     toUint8 (js_or (js_shl (js_and hi 0xf) 4) (js_and lo 0xf)) # nibblesToBytes ns"
| "nibblesToBytes _ = []"

section \<open>JavaScript numbers used by the receiver\<close>

text \<open>
  Clock readings (\<^verbatim>\<open>performance.now()\<close>, in milliseconds), the symbol duration, the
  threshold and the magnitudes are IEEE 754 double-precision numbers. A double is a real
  number here, and every \<^verbatim>\<open>+\<close>, \<^verbatim>\<open>-\<close>, \<^verbatim>\<open>*\<close> and \<^verbatim>\<open>/\<close> of the code is the exact result
  rounded to the nearest double, ties to the even mantissa: 53 significant bits, and
  below \<open>2^-1022\<close> the fixed spacing \<open>2^-1074\<close> of the subnormal numbers. Comparisons are
  exact. The quantities of the receiver stay far below \<open>2^1024\<close>, where the code would
  produce \<^verbatim>\<open>Infinity\<close>. A decimal literal of the code that is not a double (\<^verbatim>\<open>0.4\<close>) stands
  for the nearest one.
\<close>

definition round_even :: "real \<Rightarrow> int" where
  "round_even y =
     (let f = \<lfloor>y\<rfloor>; r = y - of_int f
      in if r < 1 / 2 then f else if 1 / 2 < r then f + 1 else if even f then f else f + 1)"

definition double_round :: "real \<Rightarrow> real" where
  "double_round x =
     (if x = 0 then 0
      else (let e = max \<lfloor>log 2 \<bar>x\<bar>\<rfloor> (- 1022); ulp = 2 powr (of_int e - 52)
            in of_int (round_even (x / ulp)) * ulp))"

definition fadd :: "real \<Rightarrow> real \<Rightarrow> real" where
  \<comment> \<open>\<^verbatim>\<open>x + y\<close> on doubles\<close>
  "fadd x y = double_round (x + y)"

definition fsub :: "real \<Rightarrow> real \<Rightarrow> real" where
  \<comment> \<open>\<^verbatim>\<open>x - y\<close> on doubles\<close>
  "fsub x y = double_round (x - y)"

definition fmul :: "real \<Rightarrow> real \<Rightarrow> real" where
  \<comment> \<open>\<^verbatim>\<open>x * y\<close> on doubles\<close>
  "fmul x y = double_round (x * y)"

definition fdiv :: "real \<Rightarrow> real \<Rightarrow> real" where
  \<comment> \<open>\<^verbatim>\<open>x / y\<close> on doubles, for a divisor that is not 0\<close>
  "fdiv x y = double_round (x / y)"

section \<open>Symbol detector\<close>

text \<open>
  \<^verbatim>\<open>detectSymbol\<close> returns \<^verbatim>\<open>null\<close> when the analyser or the audio context is missing.
  Otherwise it computes one magnitude per data tone from the analyser's spectrum (that
  computation belongs to the audio front end; its result is the input here) and scans
  them with \<^verbatim>\<open>mags.forEach((m, i) => { if (m > bestMag) { bestMag = m; bestSym = i } })\<close>,
  starting from \<^verbatim>\<open>bestSym = -1, bestMag = 0\<close>.
\<close>

record detection =
  symbol :: int
  magnitude :: real
  mags :: "real list"

fun forEach_best :: "real list \<Rightarrow> int \<Rightarrow> int \<times> real \<Rightarrow> int \<times> real" where
  "forEach_best [] i best = best"
| "forEach_best (m # ms) i (bestSym, bestMag) =
     forEach_best ms (i + 1) (if m > bestMag then (i, m) else (bestSym, bestMag))"

definition detectSymbol :: "real list option \<Rightarrow> detection option" where
  "detectSymbol analysed =
     (case analysed of
        None \<Rightarrow> None
      | Some ms \<Rightarrow>
          (case forEach_best ms 0 (-1, 0) of
             (bestSym, bestMag) \<Rightarrow> Some \<lparr> symbol = bestSym, magnitude = bestMag, mags = ms \<rparr>))"

section \<open>Receiver session and its effects\<close>

datatype rx_mode = RX_IDLE | RX_PREAMBLE | RX_DATA

definition PREAMBLE_SYMS :: nat where
  "PREAMBLE_SYMS = 4"

text \<open>The decode-state refs of the component; time stamps are doubles, in milliseconds.\<close>

record rx_session =
  rxState :: rx_mode
  rxNibbles :: "int list"
  sampleBuf :: "int option list"
  lastSymTime :: real
  preambleAt :: real
  preambleEndsAt :: real
  silenceCount :: nat
  rxDataStart :: real

text \<open>
  Calls into the user interface are recorded, in order, as a list of effects. A status
  message is kept by its kind and the values it is built from; the delayed call
  \<^verbatim>\<open>setTimeout(() => { if (isListeningRef.current) setRxStatus(LISTENING) }, ms)\<close> is the
  effect \<open>SetTimeoutListening ms\<close>.
\<close>

datatype status_cls = CLS_WARN | CLS_OK | CLS_INFO

datatype status_msg =
    INCOMPLETE nat
  | BAD_HEADER
  | TEXT_RECEIVED "int list"
  | IMAGE_RECEIVED int int nat
  | UNKNOWN_TYPE int
  | RX_TIMEOUT
  | PREAMBLE_DETECTED
  | RECEIVING_DATA
  | LISTENING

datatype img_label = LBL_RECEIVING | LBL_RECEIVING_IMAGE nat int

datatype rx_output = OUT_TEXT "int list" | OUT_IMAGE int int nat

datatype effect =
    SetRxStatus status_cls status_msg
  | SetRxImgProg bool real img_label
  | HideRxImgProg
  | SetRxOutput rx_output
  | SetRxImgSrcNull
  | ShowImage "int list"
  | SetTimeoutListening nat
  | SetDebugMag real real rx_mode
  | SetSymCells "(bool \<times> bool) list"
  | SetDecodedBits nat nat nat

definition resetRxState :: "rx_session \<Rightarrow> effect list \<times> rx_session" where
  "resetRxState st =
     ([SetRxImgProg False 0 LBL_RECEIVING],
      st\<lparr> rxState := RX_IDLE, rxNibbles := [], sampleBuf := [], preambleAt := 0,
          preambleEndsAt := 0, silenceCount := 0, rxDataStart := 0 \<rparr>)"

definition finalizePacket :: "rx_session \<Rightarrow> effect list \<times> rx_session" where
  "finalizePacket st =
     (let trimNib = js_slice (rxNibbles st) 0 (int (length (rxNibbles st) div 2) * 2) in
      if length trimNib < HEADER_LEN * 2 then
        (case resetRxState st of (e, st1) \<Rightarrow>
           ([SetRxStatus CLS_WARN (INCOMPLETE (length trimNib div 2))] @ e
              @ [SetTimeoutListening 3000], st1))
      else
        (let allBytes = nibblesToBytes trimNib in
         case parseHeader allBytes of
           None \<Rightarrow>
             (case resetRxState st of (e, st1) \<Rightarrow> ([SetRxStatus CLS_WARN BAD_HEADER] @ e, st1))
         | Some hdr \<Rightarrow>
             (let payload = js_slice allBytes (int HEADER_LEN) (int HEADER_LEN + payloadLen hdr);
                  shown =
                    (if type hdr = TYPE_TEXT then
                       [SetRxOutput (OUT_TEXT payload), SetRxImgSrcNull,
                        SetRxStatus CLS_OK (TEXT_RECEIVED payload)]
                     else if type hdr = TYPE_IMAGE then
                       [ShowImage payload, HideRxImgProg,
                        SetRxOutput (OUT_IMAGE (imgW hdr) (imgH hdr) (length payload)),
                        SetRxStatus CLS_OK (IMAGE_RECEIVED (imgW hdr) (imgH hdr) (length payload))]
                     else [SetRxStatus CLS_WARN (UNKNOWN_TYPE (type hdr))])
              in case resetRxState st of (e, st1) \<Rightarrow>
                   (shown @ e @ [SetTimeoutListening 3000], st1))))"

text \<open>
  In \<^verbatim>\<open>liveUpdateRxImage\<close> the percentage is \<^verbatim>\<open>Math.min(n / totalNibbles * 100, 100)\<close>;
  with \<^verbatim>\<open>totalNibbles = 0\<close> the quotient is \<^verbatim>\<open>Infinity\<close> (there are at least 32 nibbles),
  so the minimum is 100.
\<close>

definition liveUpdateRxImage :: "rx_session \<Rightarrow> effect list \<times> rx_session" where
  "liveUpdateRxImage st =
     (if length (rxNibbles st) < HEADER_LEN * 2 then ([], st)
      else
        (case parseHeader (nibblesToBytes (js_slice (rxNibbles st) 0 (int (HEADER_LEN * 2)))) of
           None \<Rightarrow> ([], st)
         | Some hdr \<Rightarrow>
             if type hdr \<noteq> TYPE_IMAGE then ([], st)
             else
               (let totalNibbles = (int HEADER_LEN + payloadLen hdr) * 2;
                    n = length (rxNibbles st);
                    pct = (if totalNibbles = 0 then 100
                           else min (fmul (fdiv (real n) (real_of_int totalNibbles)) 100) 100);
                    prog = [SetRxImgProg True pct (LBL_RECEIVING_IMAGE n totalNibbles)]
                in if totalNibbles \<le> int n then
                     (case finalizePacket st of (e, st1) \<Rightarrow> (prog @ e, st1))
                   else (prog, st))))"

section \<open>Majority vote of a symbol window\<close>

fun validSamples :: "int option list \<Rightarrow> int list" where
  \<comment> \<open>\<^verbatim>\<open>sampleBuf.filter(x => x !== null)\<close>\<close>
  "validSamples [] = []"
| "validSamples (None # xs) = validSamples xs"
| "validSamples (Some s # xs) = s # validSamples xs"

fun tally :: "int list \<Rightarrow> nat list \<Rightarrow> nat list" where
  \<comment> \<open>\<^verbatim>\<open>valid.forEach(s => counts[s]++)\<close> on the entries of \<open>counts\<close>\<close>
  "tally [] counts = counts"
| "tally (s # ss) counts =
     tally ss (if 0 \<le> s \<and> nat s < length counts
               then counts[nat s := counts ! nat s + 1] else counts)"

fun indexOf :: "'a list \<Rightarrow> 'a \<Rightarrow> int" where
  "indexOf [] v = -1"
| "indexOf (x # xs) v =
     (if x = v then 0 else (let r = indexOf xs v in if r < 0 then -1 else r + 1))"

text \<open>
  \<^verbatim>\<open>counts\<close> starts as sixteen zeros. A negative sample makes \<^verbatim>\<open>counts[s]++\<close> set a
  property and changes no entry. A sample of 16 or more would store \<^verbatim>\<open>NaN\<close> behind the
  sixteen entries; \<^verbatim>\<open>Math.max\<close> of such a list is \<^verbatim>\<open>NaN\<close> and \<^verbatim>\<open>indexOf(NaN)\<close> is -1.
  The samples come from \<^verbatim>\<open>detectSymbol\<close>, whose symbols lie between -1 and 15.
\<close>

definition windowWinner :: "int list \<Rightarrow> int" where
  "windowWinner valid =
     (let counts = tally valid (replicate 16 0) in
      if list_ex (\<lambda>s. 16 \<le> s) valid then -1
      else indexOf counts (fold max counts 0))"

section \<open>The sampling tick\<close>

text \<open>
  The interval callback of \<^verbatim>\<open>startSampling\<close>, with the symbol duration \<open>sd\<close>, the
  threshold \<open>THRESH\<close>, the clock reading \<open>now\<close>, the preamble magnitude \<open>mp\<close> and the
  analysed data-tone magnitudes as arguments. \<^verbatim>\<open>finalizePacketRef.current\<close> is set after
  every render, so the optional call always runs \<^verbatim>\<open>finalizePacket\<close>.
\<close>

definition symCells :: "real \<Rightarrow> detection \<Rightarrow> (bool \<times> bool) list" where
  "symCells THRESH det =
     map (\<lambda>(m, i). (m > fmul THRESH (double_round 0.4)
                       \<and> \<not> (int i = symbol det \<and> m > THRESH),
                     int i = symbol det \<and> m > THRESH))
         (zip (mags det) [0 ..< length (mags det)])"

definition dataTick :: "real \<Rightarrow> real \<Rightarrow> real \<Rightarrow> detection \<Rightarrow> effect list \<Rightarrow> rx_session
    \<Rightarrow> effect list \<times> rx_session" where
  "dataTick sd THRESH now det ui st =
     (if fsub now (rxDataStart st) > 45000 then
        (case resetRxState st of (e, st1) \<Rightarrow>
           (ui @ [SetRxStatus CLS_WARN RX_TIMEOUT] @ e @ [SetTimeoutListening 2000], st1))
      else
        (let st1 = (if magnitude det > THRESH
                    then st\<lparr> sampleBuf := sampleBuf st @ [Some (symbol det)], silenceCount := 0 \<rparr>
                    else st\<lparr> sampleBuf := sampleBuf st @ [None] \<rparr>)
         in if fsub now (lastSymTime st1) \<ge> sd then
              (let valid = validSamples (sampleBuf st1) in
               if length valid > 0 then
                 (let winner = windowWinner valid;
                      st2 = st1\<lparr> rxNibbles := rxNibbles st1 @ [winner], silenceCount := 0 \<rparr>
                  in case liveUpdateRxImage st2 of (e, st3) \<Rightarrow>
                       (ui @ e @ [SetDecodedBits (length (rxNibbles st3))
                                    (length (rxNibbles st3) div 2) (silenceCount st3)],
                        st3\<lparr> sampleBuf := [], lastSymTime := now \<rparr>))
               else
                 (let st2 = st1\<lparr> silenceCount := silenceCount st1 + 1 \<rparr> in
                  if silenceCount st2 \<ge> 5 \<and> length (rxNibbles st2) \<ge> HEADER_LEN * 2 then
                    (case finalizePacket st2 of (e, st3) \<Rightarrow> (ui @ e, st3))
                  else if silenceCount st2 \<ge> 10 \<and> length (rxNibbles st2) = 0 then
                    (case resetRxState st2 of (e, st3) \<Rightarrow>
                       (ui @ e @ [SetRxStatus CLS_INFO LISTENING], st3))
                  else
                    (ui @ [SetDecodedBits (length (rxNibbles st2))
                             (length (rxNibbles st2) div 2) (silenceCount st2)],
                     st2\<lparr> sampleBuf := [], lastSymTime := now \<rparr>)))
            else (ui, st1)))"

definition startSampling_tick :: "real \<Rightarrow> real \<Rightarrow> real \<Rightarrow> real \<Rightarrow> real list option
    \<Rightarrow> rx_session \<Rightarrow> effect list \<times> rx_session" where
  "startSampling_tick sd THRESH now mp analysed st =
     (case detectSymbol analysed of
        None \<Rightarrow> ([], st)
      | Some det \<Rightarrow>
          (let ui = [SetDebugMag mp (magnitude det) (rxState st),
                     SetSymCells (symCells THRESH det)]
           in case rxState st of
                RX_IDLE \<Rightarrow>
                  if mp > THRESH then
                    (let st1 = (if preambleAt st = 0 then st\<lparr> preambleAt := now \<rparr> else st) in
                     if fsub now (preambleAt st1) > fmul sd 1.0 then
                       (ui @ [SetRxStatus CLS_WARN PREAMBLE_DETECTED],
                        st1\<lparr> preambleEndsAt :=
                               fadd (fadd (preambleAt st1) (fmul (real PREAMBLE_SYMS) sd)) 60,
                             rxState := RX_PREAMBLE \<rparr>)
                     else (ui, st1))
                  else (ui, st\<lparr> preambleAt := 0 \<rparr>)
              | RX_PREAMBLE \<Rightarrow>
                  if now \<ge> preambleEndsAt st then
                    (ui @ [SetRxStatus CLS_INFO RECEIVING_DATA],
                     st\<lparr> rxState := RX_DATA, rxNibbles := [], sampleBuf := [],
                         lastSymTime := now, silenceCount := 0, rxDataStart := now \<rparr>)
                  else (ui, st)
              | RX_DATA \<Rightarrow> dataTick sd THRESH now det ui st))"

section \<open>Codec lemmas\<close>

lemmas js_defs = js_and_def js_or_def js_shl_def js_shr_def toInt32_def toUint8_def

lemma mask4_int: "(15::int) = mask 4"
  by (simp add: mask_eq_exp_minus_1)

lemma mask8_int: "(255::int) = mask 8"
  by (simp add: mask_eq_exp_minus_1)

lemma mod256_take_bit: "x mod 256 = take_bit 8 (x::int)"
  by (simp add: take_bit_eq_mod)

lemma byte_take_bit: "0 \<le> b \<Longrightarrow> b \<le> 255 \<Longrightarrow> take_bit 8 b = (b::int)"
  by (simp add: take_bit_int_eq_self)

lemma nibble_take_bit: "0 \<le> n \<Longrightarrow> n \<le> 15 \<Longrightarrow> take_bit 4 n = (n::int)"
  by (simp add: take_bit_int_eq_self)

lemma nibble_pair_to_byte:
  assumes "0 \<le> b" "b \<le> 255"
  shows "toUint8 (js_or (js_shl (js_and (js_and (js_shr b 4) 0xf) 0xf) 4)
                        (js_and (js_and b 0xf) 0xf)) = b"
proof -
  have "take_bit 8 (js_or (js_shl (js_and (js_and (js_shr b 4) 0xf) 0xf) 4)
                          (js_and (js_and b 0xf) 0xf)) = take_bit 8 b"
    unfolding js_or_def js_shl_def js_and_def js_shr_def toInt32_def mask4_int
    by (rule bit_eqI) (auto simp add: bit_simps)
  then show ?thesis
    using assms by (simp add: toUint8_def mod256_take_bit byte_take_bit)
qed

lemma byte_to_nibble_pair:
  assumes "0 \<le> hi" "hi \<le> 15" "0 \<le> lo" "lo \<le> 15"
  shows "js_and (js_shr (toUint8 (js_or (js_shl (js_and hi 0xf) 4) (js_and lo 0xf))) 4) 0xf = hi"
    and "js_and (toUint8 (js_or (js_shl (js_and hi 0xf) 4) (js_and lo 0xf))) 0xf = lo"
proof -
  have "js_and (js_shr (toUint8 (js_or (js_shl (js_and hi 0xf) 4) (js_and lo 0xf))) 4) 0xf
        = take_bit 4 hi"
    unfolding js_or_def js_shl_def js_and_def js_shr_def toInt32_def toUint8_def mask4_int mod256_take_bit
    by (rule bit_eqI) (auto simp add: bit_simps)
  then show "js_and (js_shr (toUint8 (js_or (js_shl (js_and hi 0xf) 4) (js_and lo 0xf))) 4) 0xf = hi"
    using assms by (simp add: nibble_take_bit)
  have "js_and (toUint8 (js_or (js_shl (js_and hi 0xf) 4) (js_and lo 0xf))) 0xf = take_bit 4 lo"
    unfolding js_or_def js_shl_def js_and_def js_shr_def toInt32_def toUint8_def mask4_int mod256_take_bit
    by (rule bit_eqI) (auto simp add: bit_simps)
  then show "js_and (toUint8 (js_or (js_shl (js_and hi 0xf) 4) (js_and lo 0xf))) 0xf = lo"
    using assms by (simp add: nibble_take_bit)
qed

lemma bytesToNibbles_high_low:
  assumes "0 \<le> b" "b \<le> 255"
  shows "js_and (js_shr b 4) 0xf = b div 16" and "js_and b 0xf = b mod 16"
proof -
  have "js_and (js_shr b 4) 0xf = take_bit 4 (drop_bit 4 (take_bit 8 b))"
    unfolding js_and_def js_shr_def toInt32_def mask4_int
    by (rule bit_eqI) (auto simp add: bit_simps)
  then show "js_and (js_shr b 4) 0xf = b div 16"
    using assms by (simp add: byte_take_bit take_bit_eq_mod drop_bit_eq_div)
  have "js_and b 0xf = take_bit 4 (take_bit 8 b)"
    unfolding js_and_def js_shr_def toInt32_def mask4_int
    by (rule bit_eqI) (auto simp add: bit_simps)
  then show "js_and b 0xf = b mod 16"
    using assms by (simp add: byte_take_bit take_bit_eq_mod)
qed

section \<open>Byte and nibble round trips\<close>

text \<open>
  C1. For every byte sequence \<open>B\<close> whose elements are integers in \<open>[0,255]\<close>,
  \<^verbatim>\<open>nibblesToBytes(bytesToNibbles(B))\<close> is \<open>B\<close> again, and \<^verbatim>\<open>bytesToNibbles\<close> emits for
  each input byte its high nibble (the byte divided by 16) first and then its low nibble
  (the byte modulo 16).
\<close>

theorem nibblesToBytes_bytesToNibbles:
  assumes "\<forall>b \<in> set B. 0 \<le> b \<and> b \<le> 255"
  shows "nibblesToBytes (bytesToNibbles B) = B
         \<and> bytesToNibbles B = concat (map (\<lambda>b. [b div 16, b mod 16]) B)"
  using assms
proof (induction B)
  case Nil
  show ?case by simp
next
  case (Cons b B)
  from Cons.prems have b: "0 \<le> b" "b \<le> 255" by simp_all
  from Cons.prems have "\<forall>b \<in> set B. 0 \<le> b \<and> b \<le> 255" by simp
  with Cons.IH have IH: "nibblesToBytes (bytesToNibbles B) = B"
    "bytesToNibbles B = concat (map (\<lambda>b. [b div 16, b mod 16]) B)" by blast+
  have "nibblesToBytes (bytesToNibbles (b # B)) = b # B"
    using nibble_pair_to_byte [OF b] IH(1) by simp
  moreover have "bytesToNibbles (b # B) = concat (map (\<lambda>b. [b div 16, b mod 16]) (b # B))"
    using bytesToNibbles_high_low [OF b] IH(2) by simp
  ultimately show ?case by blast
qed

theorem nibblesToBytes_bytesToNibbles_witness:
  "nibblesToBytes (bytesToNibbles [0x41, 0xff, 0x00, 0x7e]) = [0x41, 0xff, 0x00, 0x7e]
   \<and> bytesToNibbles [0x41, 0xff, 0x00, 0x7e] = [4, 1, 15, 15, 0, 0, 7, 14]"
  using nibblesToBytes_bytesToNibbles [of "[0x41, 0xff, 0x00, 0x7e]"]
  by (simp add: js_and_def js_or_def js_shl_def js_shr_def toInt32_def toUint8_def)

lemma nibble_mod_16: "0 \<le> n \<Longrightarrow> n \<le> 15 \<Longrightarrow> n mod 16 = (n::int)"
  by (simp add: mod_pos_pos_trivial)

lemma byte_to_nibble_pair_masked:
  "js_and (js_shr (toUint8 (js_or (js_shl (js_and hi 0xf) 4) (js_and lo 0xf))) 4) 0xf = hi mod 16"
  "js_and (toUint8 (js_or (js_shl (js_and hi 0xf) 4) (js_and lo 0xf))) 0xf = lo mod 16"
proof -
  have "js_and (js_shr (toUint8 (js_or (js_shl (js_and hi 0xf) 4) (js_and lo 0xf))) 4) 0xf
        = take_bit 4 hi"
    unfolding js_or_def js_shl_def js_and_def js_shr_def toInt32_def toUint8_def mask4_int
      mod256_take_bit
    by (rule bit_eqI) (auto simp add: bit_simps)
  then show "js_and (js_shr (toUint8 (js_or (js_shl (js_and hi 0xf) 4) (js_and lo 0xf))) 4) 0xf
             = hi mod 16"
    by (simp add: take_bit_eq_mod)
  have "js_and (toUint8 (js_or (js_shl (js_and hi 0xf) 4) (js_and lo 0xf))) 0xf = take_bit 4 lo"
    unfolding js_or_def js_shl_def js_and_def js_shr_def toInt32_def toUint8_def mask4_int
      mod256_take_bit
    by (rule bit_eqI) (auto simp add: bit_simps)
  then show "js_and (toUint8 (js_or (js_shl (js_and hi 0xf) 4) (js_and lo 0xf))) 0xf = lo mod 16"
    by (simp add: take_bit_eq_mod)
qed

lemma bytesToNibbles_nibblesToBytes_masked:
  "bytesToNibbles (nibblesToBytes ns) = map (\<lambda>n. n mod 16) (take (2 * (length ns div 2)) ns)"
proof (induction ns rule: nibblesToBytes.induct)
  case (1 hi lo ns)
  then show ?case
    by (simp add: byte_to_nibble_pair_masked)
qed simp_all

text \<open>
  C10. For every even-length sequence of nibbles, each in \<open>[0,15]\<close>,
  \<^verbatim>\<open>bytesToNibbles(nibblesToBytes(ns))\<close> is \<open>ns\<close> again, and under no other input: on every
  integer sequence the result is the longest even-length prefix with each entry reduced
  modulo 16, so an odd-length input loses its last nibble and an entry outside \<open>[0,15]\<close>
  comes back masked to its low four bits.
\<close>

theorem bytesToNibbles_nibblesToBytes:
  "bytesToNibbles (nibblesToBytes ns) = map (\<lambda>n. n mod 16) (take (2 * (length ns div 2)) ns)
   \<and> ((bytesToNibbles (nibblesToBytes ns) = ns)
        = (even (length ns) \<and> (\<forall>n \<in> set ns. 0 \<le> n \<and> n \<le> 15)))"
proof -
  note masked = bytesToNibbles_nibblesToBytes_masked [of ns]
  have "bytesToNibbles (nibblesToBytes ns) = ns"
    if ev: "even (length ns)" and rng: "\<forall>n \<in> set ns. 0 \<le> n \<and> n \<le> 15"
  proof -
    from ev have "2 * (length ns div 2) = length ns" by simp
    then have "bytesToNibbles (nibblesToBytes ns) = map (\<lambda>n. n mod 16) ns"
      using masked by simp
    also have "\<dots> = ns"
      using rng by (intro map_idI) (auto simp add: nibble_mod_16)
    finally show ?thesis .
  qed
  moreover have "even (length ns) \<and> (\<forall>n \<in> set ns. 0 \<le> n \<and> n \<le> 15)"
    if eq: "bytesToNibbles (nibblesToBytes ns) = ns"
  proof -
    from eq masked have m: "map (\<lambda>n. n mod 16) (take (2 * (length ns div 2)) ns) = ns"
      by simp
    then have "length (take (2 * (length ns div 2)) ns) = length ns"
      by (metis length_map)
    then have full: "2 * (length ns div 2) = length ns"
      by simp
    then have ev: "even (length ns)"
      by (metis even_mult_iff even_numeral)
    from m full have unchanged: "map (\<lambda>n. n mod 16) ns = ns"
      by simp
    have "0 \<le> n \<and> n \<le> 15" if "n \<in> set ns" for n
    proof -
      from that obtain i where i: "i < length ns" "ns ! i = n"
        by (auto simp add: in_set_conv_nth)
      from unchanged i have "n mod 16 = n"
        by (metis nth_map)
      moreover have "0 \<le> n mod 16" "n mod 16 < 16"
        by simp_all
      ultimately show ?thesis by linarith
    qed
    with ev show ?thesis by blast
  qed
  ultimately show ?thesis
    using masked by blast
qed

theorem bytesToNibbles_nibblesToBytes_witness:
  "bytesToNibbles (nibblesToBytes [4, 1, 15, 0]) = [4, 1, 15, 0]
   \<and> bytesToNibbles (nibblesToBytes [4, 1, 15]) = [4, 1]
   \<and> bytesToNibbles (nibblesToBytes [4, 17]) = [4, 1]"
  using bytesToNibbles_nibblesToBytes [of "[4, 1, 15, 0]"]
    bytesToNibbles_nibblesToBytes [of "[4, 1, 15]"]
    bytesToNibbles_nibblesToBytes [of "[4, 17]"]
  by simp

section \<open>Header round trip\<close>

lemma upt_0_4: "[0..<4] = [0, 1, 2, 3]"
  by (simp add: upt_rec)

lemma parse_build_len:
  "js_or (js_or (js_or (js_shl (toUint8 (js_and (js_shr len 24) 0xff)) 24)
                       (js_shl (toUint8 (js_and (js_shr len 16) 0xff)) 16))
                (js_shl (toUint8 (js_and (js_shr len 8) 0xff)) 8))
         (toUint8 (js_and len 0xff)) = toInt32 len"
proof (rule bit_eqI)
  fix n :: nat
  consider "n < 8" | "8 \<le> n" "n < 16" | "16 \<le> n" "n < 24" | "24 \<le> n" "n < 31" | "31 \<le> n"
    by linarith
  then show "bit (js_or (js_or (js_or (js_shl (toUint8 (js_and (js_shr len 24) 0xff)) 24)
                       (js_shl (toUint8 (js_and (js_shr len 16) 0xff)) 16))
                (js_shl (toUint8 (js_and (js_shr len 8) 0xff)) 8))
         (toUint8 (js_and len 0xff))) n = bit (toInt32 len) n"
    unfolding js_or_def js_shl_def js_and_def js_shr_def toInt32_def toUint8_def mask8_int
      mod256_take_bit
    by cases (auto simp add: bit_simps min_def)
qed

lemma parse_build_dim:
  "js_or (js_shl (toUint8 (js_and (js_shr w 8) 0xff)) 8) (toUint8 (js_and w 0xff)) = take_bit 16 w"
proof (rule bit_eqI)
  fix n :: nat
  consider "n < 8" | "8 \<le> n" "n < 16" | "16 \<le> n"
    by linarith
  then show "bit (js_or (js_shl (toUint8 (js_and (js_shr w 8) 0xff)) 8) (toUint8 (js_and w 0xff))) n
             = bit (take_bit 16 w) n"
    unfolding js_or_def js_shl_def js_and_def js_shr_def toInt32_def toUint8_def mask8_int
      mod256_take_bit
    by cases (auto simp add: bit_simps min_def)
qed

text \<open>
  What \<^verbatim>\<open>parseHeader\<close> recovers from \<^verbatim>\<open>buildHeader\<close>, for all integer arguments: the type
  modulo 256, the length as a signed 32-bit value, and the dimensions modulo \<open>2^16\<close>.
\<close>

lemma parseHeader_buildHeader_general:
  "parseHeader (buildHeader ty len w h) =
     Some \<lparr> type = ty mod 256, payloadLen = toInt32 len,
            imgW = take_bit 16 w, imgH = take_bit 16 h \<rparr>"
proof -
  have magic: "toUint8 0x41 = 0x41" "toUint8 0x43 = 0x43" "toUint8 0x53 = 0x53"
    "toUint8 0x54 = 0x54"
    by (simp_all add: toUint8_def)
  show ?thesis
    by (simp add: parseHeader_def buildHeader_def MAGIC_def HEADER_LEN_def upt_0_4 magic
        parse_build_len parse_build_dim)
      (simp add: toUint8_def)
qed

lemma parseHeader_buildHeader_below_2_31:
  assumes "0 \<le> ty" "ty \<le> 255" "0 \<le> len" "len < 2 ^ 31"
    and "0 \<le> w" "w < 2 ^ 16" "0 \<le> h" "h < 2 ^ 16"
  shows "parseHeader (buildHeader ty len w h) =
           Some \<lparr> type = ty, payloadLen = len, imgW = w, imgH = h \<rparr>"
proof -
  have "toInt32 len = len"
    using assms(3,4) by (simp add: toInt32_def signed_take_bit_int_eq_self)
  moreover have "take_bit 16 w = w" "take_bit 16 h = h"
    using assms(5-8) by (simp_all add: take_bit_int_eq_self)
  moreover have "ty mod 256 = ty"
    using assms(1,2) by simp
  ultimately show ?thesis
    by (simp add: parseHeader_buildHeader_general)
qed

lemma parseHeader_buildHeader_from_2_31:
  assumes "2 ^ 31 \<le> len" "len < 2 ^ 32"
  shows "parseHeader (buildHeader ty len w h) =
           Some \<lparr> type = ty mod 256, payloadLen = len - 2 ^ 32,
                  imgW = take_bit 16 w, imgH = take_bit 16 h \<rparr>"
proof -
  have e: "len + 2147483648 = (len - 2147483648) + 4294967296"
    by linarith
  have "(len + 2147483648) mod 4294967296 = (len - 2147483648) mod 4294967296"
    by (simp only: e mod_add_self2)
  also have "\<dots> = len - 2147483648"
    using assms by simp
  finally have "signed_take_bit 31 len = len - 2 ^ 32"
    by (simp add: signed_take_bit_eq_take_bit_shift take_bit_eq_mod)
  then show ?thesis
    by (simp add: parseHeader_buildHeader_general toInt32_def)
qed

text \<open>
  C2. For every valid header tuple (type a byte, length an unsigned 32-bit integer, width
  and height unsigned 16-bit integers) \<^verbatim>\<open>parseHeader(buildHeader(...))\<close> is meant to give
  the four values back. For the length \<open>2^31\<close>, which is a valid unsigned 32-bit value,
  \<^verbatim>\<open>parseHeader\<close> returns the negative length \<open>-2^31\<close>: it assembles the field with
  \<^verbatim>\<open><<\<close> and \<^verbatim>\<open>|\<close>, whose results are signed 32-bit integers.
\<close>

theorem parseHeader_buildHeader_length_2_31:
  "parseHeader (buildHeader 0x54 2147483648 0 0) =
     Some \<lparr> type = 0x54, payloadLen = - 2147483648, imgW = 0, imgH = 0 \<rparr>"
  by (simp add: parseHeader_buildHeader_general toInt32_def)

section \<open>Rejected headers\<close>

text \<open>
  C3. \<^verbatim>\<open>parseHeader\<close> returns \<^verbatim>\<open>null\<close> exactly when the input is shorter than 16 bytes or one
  of its first four bytes differs from the magic bytes 0x41 0x43 0x53 0x54; in every
  other case it returns a header, whose type is byte 4.
\<close>

theorem parseHeader_null_iff:
  "(parseHeader bytes = None) =
     (length bytes < 16 \<or> bytes ! 0 \<noteq> 0x41 \<or> bytes ! 1 \<noteq> 0x43
        \<or> bytes ! 2 \<noteq> 0x53 \<or> bytes ! 3 \<noteq> 0x54)
   \<and> (parseHeader bytes = None \<or> (\<exists>hdr. parseHeader bytes = Some hdr \<and> type hdr = bytes ! 4))"
  by (auto simp add: parseHeader_def MAGIC_def HEADER_LEN_def upt_0_4)

theorem parseHeader_null_iff_witness:
  "(\<exists>hdr. parseHeader [0x41, 0x43, 0x53, 0x54, 0x54, 0, 0, 0, 1, 0, 0, 0, 0, 0, 0, 0, 0x48]
            = Some hdr \<and> type hdr = 0x54)
   \<and> parseHeader [0x41, 0x43, 0x53] = None
   \<and> parseHeader [0x41, 0x43, 0x53, 0x55, 0x54, 0, 0, 0, 1, 0, 0, 0, 0, 0, 0, 0, 0x48] = None"
  using parseHeader_null_iff [of "[0x41, 0x43, 0x53, 0x54, 0x54, 0, 0, 0, 1, 0, 0, 0, 0, 0, 0, 0, 0x48]"]
    parseHeader_null_iff [of "[0x41, 0x43, 0x53]"]
    parseHeader_null_iff [of "[0x41, 0x43, 0x53, 0x55, 0x54, 0, 0, 0, 1, 0, 0, 0, 0, 0, 0, 0, 0x48]"]
  by auto

section \<open>Symbol detector: lowest-index argmax\<close>

lemma forEach_best_spec:
  "forEach_best ms i (s, b) = (s', b') \<Longrightarrow>
    (if \<exists>m\<in>set ms. m > b then
        (\<exists>j<length ms. s' = i + int j \<and> b' = ms ! j \<and> (\<forall>k<length ms. ms ! k \<le> ms ! j)
            \<and> (\<forall>k<j. ms ! k < ms ! j))
     else s' = s \<and> b' = b)"
proof (induction ms arbitrary: i s b)
  case Nil
  then show ?case by simp
next
  case (Cons m ms)
  show ?case
  proof (cases "m > b")
    case True
    with Cons.prems have run: "forEach_best ms (i + 1) (i, m) = (s', b')" by simp
    note IH = Cons.IH [OF run]
    show ?thesis
    proof (cases "\<exists>x\<in>set ms. x > m")
      case True
      with IH obtain j where j: "j < length ms" "s' = i + 1 + int j" "b' = ms ! j"
        "\<forall>k<length ms. ms ! k \<le> ms ! j" "\<forall>k<j. ms ! k < ms ! j" by auto
      from True j(1,4) have "m < ms ! j"
        by (metis in_set_conv_nth le_less_trans not_le order.strict_trans2)
      with j have "Suc j < length (m # ms) \<and> s' = i + int (Suc j) \<and> b' = (m # ms) ! Suc j
         \<and> (\<forall>k<length (m # ms). (m # ms) ! k \<le> (m # ms) ! Suc j)
         \<and> (\<forall>k<Suc j. (m # ms) ! k < (m # ms) ! Suc j)"
        by (auto simp: nth_Cons split: nat.splits)
      moreover have "\<exists>x\<in>set (m # ms). x > b" using \<open>m > b\<close> by auto
      ultimately show ?thesis by (simp only: if_True) blast
    next
      case False
      with IH have e: "s' = i" "b' = m" by auto
      from False have "\<forall>k<length ms. ms ! k \<le> m" by (auto simp: not_less)
      with e have "0 < length (m # ms) \<and> s' = i + int 0 \<and> b' = (m # ms) ! 0
         \<and> (\<forall>k<length (m # ms). (m # ms) ! k \<le> (m # ms) ! 0)
         \<and> (\<forall>k<0. (m # ms) ! k < (m # ms) ! 0)"
        by (auto simp: nth_Cons split: nat.splits)
      moreover have "\<exists>x\<in>set (m # ms). x > b" using \<open>m > b\<close> by auto
      ultimately show ?thesis by (simp only: if_True) blast
    qed
  next
    case False
    with Cons.prems have run: "forEach_best ms (i + 1) (s, b) = (s', b')" by simp
    note IH = Cons.IH [OF run]
    show ?thesis
    proof (cases "\<exists>x\<in>set ms. x > b")
      case True
      with IH obtain j where j: "j < length ms" "s' = i + 1 + int j" "b' = ms ! j"
        "\<forall>k<length ms. ms ! k \<le> ms ! j" "\<forall>k<j. ms ! k < ms ! j" by auto
      from True j(1,4) have "b < ms ! j"
        by (metis in_set_conv_nth le_less_trans not_le order.strict_trans2)
      with j False have "Suc j < length (m # ms) \<and> s' = i + int (Suc j) \<and> b' = (m # ms) ! Suc j
         \<and> (\<forall>k<length (m # ms). (m # ms) ! k \<le> (m # ms) ! Suc j)
         \<and> (\<forall>k<Suc j. (m # ms) ! k < (m # ms) ! Suc j)"
        by (auto simp: nth_Cons split: nat.splits)
      moreover have "\<exists>x\<in>set (m # ms). x > b" using True by auto
      ultimately show ?thesis by (simp only: if_True) blast
    next
      case F2: False
      with IH False show ?thesis by auto
    qed
  qed
qed


text \<open>
  C9 as stated: for every vector of 16 normalized magnitudes the detector returns the
  argmax, an integer in \<open>[0,15]\<close>. On silence (all sixteen magnitudes 0) no magnitude
  exceeds the initial \<^verbatim>\<open>bestMag = 0\<close>, and the symbol stays at its initial value -1.
\<close>

theorem detectSymbol_silence_counterexample:
  "detectSymbol (Some [0, 0, 0, 0, 0, 0, 0, 0, 0, 0, 0, 0, 0, 0, 0, 0]) =
     Some \<lparr> symbol = - 1, magnitude = 0,
            mags = [0, 0, 0, 0, 0, 0, 0, 0, 0, 0, 0, 0, 0, 0, 0, 0] \<rparr>"
  by (simp add: detectSymbol_def)

text \<open>
  C9, amended. For every vector of 16 normalized magnitudes with at least one positive
  entry, the detector returns the first index at which the largest magnitude occurs (every
  earlier channel is strictly smaller, no channel is larger), an integer in \<open>[0,15]\<close>,
  together with that magnitude. When no entry is positive it returns the symbol -1 with
  magnitude 0.
\<close>

theorem detectSymbol_argmax:
  assumes "length ms = 16" and "\<forall>m \<in> set ms. 0 \<le> m \<and> m \<le> 1"
  shows "\<exists>d. detectSymbol (Some ms) = Some d \<and> mags d = ms
           \<and> (if \<exists>m \<in> set ms. 0 < m
               then 0 \<le> symbol d \<and> symbol d \<le> 15
                    \<and> magnitude d = ms ! nat (symbol d)
                    \<and> (\<forall>k < 16. ms ! k \<le> magnitude d)
                    \<and> (\<forall>k < nat (symbol d). ms ! k < magnitude d)
               else symbol d = - 1 \<and> magnitude d = 0)"
proof -
  obtain s b where run: "forEach_best ms 0 (- 1, 0) = (s, b)"
    by (cases "forEach_best ms 0 (- 1, 0)") auto
  then have d: "detectSymbol (Some ms) = Some \<lparr> symbol = s, magnitude = b, mags = ms \<rparr>"
    by (simp add: detectSymbol_def)
  show ?thesis
  proof (cases "\<exists>m \<in> set ms. 0 < m")
    case True
    with forEach_best_spec [OF run] obtain j where j: "j < length ms" "s = int j" "b = ms ! j"
      "\<forall>k<length ms. ms ! k \<le> ms ! j" "\<forall>k<j. ms ! k < ms ! j"
      by auto
    with assms(1) have "0 \<le> s \<and> s \<le> 15 \<and> b = ms ! nat s \<and> (\<forall>k < 16. ms ! k \<le> b)
        \<and> (\<forall>k < nat s. ms ! k < b)"
      by auto
    with True d show ?thesis by auto
  next
    case False
    with forEach_best_spec [OF run] have "s = - 1 \<and> b = 0" by auto
    with False d show ?thesis by simp
  qed
qed

theorem detectSymbol_argmax_witness:
  "length [0, 0.5, 0.2, 0.5, 0, 0, 0, 0, 0, 0, 0, 0, 0, 0, 0, 0 :: real] = 16
   \<and> (\<exists>d. detectSymbol (Some [0, 0.5, 0.2, 0.5, 0, 0, 0, 0, 0, 0, 0, 0, 0, 0, 0, 0]) = Some d
          \<and> symbol d = 1 \<and> magnitude d = 0.5)"
proof -
  have h1: "length [0, 0.5, 0.2, 0.5, 0, 0, 0, 0, 0, 0, 0, 0, 0, 0, 0, 0 :: real] = 16"
    by simp
  have h2: "\<forall>m \<in> set [0, 0.5, 0.2, 0.5, 0, 0, 0, 0, 0, 0, 0, 0, 0, 0, 0, 0 :: real]. 0 \<le> m \<and> m \<le> 1"
    by simp
  from detectSymbol_argmax [OF h1 h2] obtain d where
    d: "detectSymbol (Some [0, 0.5, 0.2, 0.5, 0, 0, 0, 0, 0, 0, 0, 0, 0, 0, 0, 0]) = Some d"
    by blast
  then have "symbol d = 1 \<and> magnitude d = 0.5"
    by (auto simp add: detectSymbol_def)
  with d h1 h2 show ?thesis by blast
qed

section \<open>Rounding to a double\<close>

lemma round_even_of_int: "round_even (of_int m) = m"
  by (simp add: round_even_def)

lemma double_round_scaled:
  assumes lo: "2 ^ k \<le> \<bar>x\<bar>" and hi: "\<bar>x\<bar> < 2 ^ Suc k" and k: "k \<le> 52"
  shows "double_round x = of_int (round_even (x * 2 ^ (52 - k))) / 2 ^ (52 - k)"
proof -
  have pos: "0 < \<bar>x\<bar>"
    using lo by (smt (verit) zero_less_power)
  have "\<lfloor>log 2 \<bar>x\<bar>\<rfloor> = int k"
    using lo hi pos by (subst floor_log_eq_powr_iff) (auto simp add: powr_realpow powr_add)
  then have e: "max \<lfloor>log 2 \<bar>x\<bar>\<rfloor> (- 1022) = int k"
    by simp
  have ex: "real k - 52 = - real (52 - k)"
    using k by linarith
  have "(2::real) powr (real k - 52) = 2 powr (- real (52 - k))"
    by (simp only: ex)
  also have "\<dots> = 1 / 2 ^ (52 - k)"
    by (simp add: powr_minus powr_realpow divide_inverse)
  finally have ulp: "(2::real) powr (real k - 52) = 1 / 2 ^ (52 - k)" .
  from pos have "x \<noteq> 0" by auto
  then show ?thesis
    by (simp add: double_round_def e ulp Let_def)
qed

text \<open>Every integer below \<open>2^53\<close> in magnitude is a double.\<close>

lemma double_round_int:
  assumes "x \<in> \<int>" and "\<bar>x\<bar> < 2 ^ 53"
  shows "double_round x = x"
proof (cases "x = 0")
  case True
  then show ?thesis by (simp add: double_round_def)
next
  case False
  from assms(1) obtain n :: int where n: "x = of_int n"
    by (auto elim: Ints_cases)
  with False have one: "1 \<le> \<bar>x\<bar>"
    by (simp flip: of_int_abs)
  define k where "k = nat \<lfloor>log 2 \<bar>x\<bar>\<rfloor>"
  have l0: "0 \<le> log 2 \<bar>x\<bar>"
    using one by simp
  have "log 2 \<bar>x\<bar> < 53"
    using assms(2) one by (subst log_less_iff) (auto simp add: powr_realpow)
  then have k52: "k \<le> 52"
    unfolding k_def using l0 by linarith
  have "\<lfloor>log 2 \<bar>x\<bar>\<rfloor> = int k"
    unfolding k_def using l0 by simp
  then have "2 powr (of_int (int k)) \<le> \<bar>x\<bar> \<and> \<bar>x\<bar> < 2 powr (of_int (int k + 1))"
    using one by (subst (asm) floor_log_eq_powr_iff) auto
  then have b: "2 ^ k \<le> \<bar>x\<bar>" "\<bar>x\<bar> < 2 ^ Suc k"
    by (auto simp add: powr_realpow powr_add)
  have "x * 2 ^ (52 - k) = of_int (n * 2 ^ (52 - k))"
    by (simp add: n)
  then have "round_even (x * 2 ^ (52 - k)) = n * 2 ^ (52 - k)"
    by (simp only: round_even_of_int)
  then have "double_round x = of_int (n * 2 ^ (52 - k)) / 2 ^ (52 - k)"
    by (simp only: double_round_scaled [OF b k52])
  also have "\<dots> = x"
    by (simp add: n)
  finally show ?thesis .
qed

lemmas double_defs = fadd_def fsub_def fmul_def fdiv_def

lemma fsub_self: "fsub x x = 0"
  by (simp add: fsub_def double_round_def)

text \<open>
  Rounding matters at the 45 second boundary: the doubles nearest to 640.002 and to
  45640.002 differ by \<open>45000 + 2^-41\<close>, and their computed difference is 45000.
\<close>

lemma fsub_boundary:
  "fsub (6272714111339987 / 137438953472) (1407379281599791 / 2199023255552) = 45000"
proof -
  have "fsub (6272714111339987 / 137438953472) (1407379281599791 / 2199023255552)
        = double_round (98956046499840001 / 2199023255552)"
    by (simp add: fsub_def)
  also have "\<dots> = of_int (round_even ((98956046499840001 / 2199023255552) * 2 ^ (52 - 15)))
                    / 2 ^ (52 - 15)"
    by (rule double_round_scaled [where k = 15]) simp_all
  also have "\<dots> = 45000"
    by (simp add: round_even_def)
  finally show ?thesis .
qed

section \<open>Majority vote\<close>

lemma tally_length: "length (tally ss c) = length c"
  by (induction ss arbitrary: c) auto

lemma tally_nth: "k < length c \<Longrightarrow> tally ss c ! k = c ! k + count_list ss (int k)"
proof (induction ss arbitrary: c)
  case Nil
  then show ?case by simp
next
  case (Cons s ss)
  then show ?case by (auto simp: nth_list_update)
qed

lemma fold_max_ge_init: "a \<le> fold max xs (a::nat)"
proof (induction xs arbitrary: a)
  case Nil
  show ?case by simp
next
  case (Cons x xs)
  have "a \<le> max x a" by simp
  also have "max x a \<le> fold max xs (max x a)" by (rule Cons.IH)
  finally show ?case by simp
qed

lemma fold_max_ge_mem: "x \<in> set xs \<Longrightarrow> x \<le> fold max xs (a::nat)"
proof (induction xs arbitrary: a)
  case Nil
  then show ?case by simp
next
  case (Cons y ys)
  show ?case
  proof (cases "x = y")
    case True
    have "x \<le> max y a" using True by simp
    also have "max y a \<le> fold max ys (max y a)" by (rule fold_max_ge_init)
    finally show ?thesis by simp
  next
    case False
    with Cons.prems have "x \<in> set ys" by simp
    then show ?thesis using Cons.IH by simp
  qed
qed

lemma fold_max_mem: "fold max xs (a::nat) = a \<or> fold max xs a \<in> set xs"
  by (induction xs arbitrary: a) (auto simp: max_def)

lemma indexOf_first:
  "v \<in> set xs \<Longrightarrow> \<exists>j<length xs. indexOf xs v = int j \<and> xs ! j = v \<and> (\<forall>k<j. xs ! k \<noteq> v)"
proof (induction xs)
  case Nil
  then show ?case by simp
next
  case (Cons x xs)
  show ?case
  proof (cases "x = v")
    case True
    then show ?thesis by auto
  next
    case False
    with Cons obtain j where j: "j < length xs" "indexOf xs v = int j" "xs ! j = v" "\<forall>k<j. xs ! k \<noteq> v"
      by auto
    with False have "Suc j < length (x # xs) \<and> indexOf (x # xs) v = int (Suc j) \<and> (x # xs) ! Suc j = v
        \<and> (\<forall>k<Suc j. (x # xs) ! k \<noteq> v)"
      by (auto simp: nth_Cons split: nat.splits)
    then show ?thesis by blast
  qed
qed


lemma windowWinner_spec:
  assumes rng: "\<forall>s\<in>set valid. s \<le> 15"
  shows "0 \<le> windowWinner valid \<and> windowWinner valid \<le> 15
         \<and> (\<forall>v. 0 \<le> v \<and> v \<le> 15 \<longrightarrow>
                count_list valid v \<le> count_list valid (windowWinner valid))
         \<and> (\<forall>v. 0 \<le> v \<and> v \<le> 15
                \<and> count_list valid v = count_list valid (windowWinner valid) \<longrightarrow>
                windowWinner valid \<le> v)"
proof -
  define counts where "counts = tally valid (replicate 16 0)"
  define M where "M = fold max counts 0"
  have len: "length counts = 16" by (simp add: counts_def tally_length)
  have cnt: "counts ! k = count_list valid (int k)" if "k < 16" for k
    using that by (simp add: counts_def tally_nth)
  have Mmem: "M \<in> set counts"
  proof -
    from fold_max_mem [of counts 0] have "M = 0 \<or> M \<in> set counts" by (simp add: M_def)
    moreover have "M \<in> set counts" if "M = 0"
    proof -
      have "counts ! 0 \<le> M" unfolding M_def by (rule fold_max_ge_mem) (simp add: len)
      with that have "counts ! 0 = M" by simp
      then show ?thesis using len by (metis nth_mem zero_less_numeral)
    qed
    ultimately show ?thesis by blast
  qed
  from indexOf_first [OF Mmem] obtain j where j: "j < length counts" "indexOf counts M = int j"
    "counts ! j = M" "\<forall>k<j. counts ! k \<noteq> M" by blast
  have nobig: "\<not> list_ex (\<lambda>s. 16 \<le> s) valid" using rng by (auto simp: list_ex_iff)
  have w: "windowWinner valid = int j"
    using nobig j(2) by (simp add: windowWinner_def counts_def [symmetric] M_def [symmetric])
  have j16: "j < 16" using j(1) len by simp
  have cw: "count_list valid (int j) = M" using cnt [OF j16] j(3) by simp
  have le_M: "count_list valid v \<le> M" if "0 \<le> v \<and> v \<le> 15" for v
  proof -
    from that have nv: "nat v < 16" by linarith
    from cnt [OF nv] that have "count_list valid v = counts ! nat v" by simp
    also have "\<dots> \<le> M" unfolding M_def by (rule fold_max_ge_mem) (simp add: len nv)
    finally show ?thesis .
  qed
  have tie: "int j \<le> v" if "0 \<le> v \<and> v \<le> 15" and "count_list valid v = M" for v
  proof (rule ccontr)
    assume "\<not> int j \<le> v"
    then have "nat v < j" using that(1) by linarith
    with j(4) have "counts ! nat v \<noteq> M" by blast
    moreover have "counts ! nat v = count_list valid v"
      using cnt [of "nat v"] \<open>nat v < j\<close> j16 that(1) by simp
    ultimately show False using that(2) by simp
  qed
  show ?thesis using w j16 cw le_M tie by auto
qed

lemma validSamples_append:
  "validSamples (xs @ ys) = validSamples xs @ validSamples ys"
  by (induction xs rule: validSamples.induct) simp_all

text \<open>The valid samples are the buffer entries that are not the no-signal marker.\<close>

lemma set_validSamples: "set (validSamples buf) = {s. Some s \<in> set buf}"
  by (induction buf rule: validSamples.induct) auto

lemma count_validSamples: "count_list (validSamples buf) v = count_list buf (Some v)"
  by (induction buf rule: validSamples.induct) simp_all

lemma length_validSamples: "length (validSamples buf) = length (filter (\<lambda>x. x \<noteq> None) buf)"
  by (induction buf rule: validSamples.induct) simp_all

text \<open>
  The symbol of a detection over at most 16 channels lies between -1 and 15, so a
  session that starts from \<^verbatim>\<open>resetRxState\<close> only ever buffers such samples.
\<close>

lemma detectSymbol_symbol_range:
  assumes det: "detectSymbol (Some ms) = Some det" and len: "length ms \<le> 16"
  shows "- 1 \<le> symbol det \<and> symbol det \<le> 15"
proof -
  obtain s b where run: "forEach_best ms 0 (- 1, 0) = (s, b)"
    by (cases "forEach_best ms 0 (- 1, 0)") auto
  with det have d: "symbol det = s"
    by (auto simp add: detectSymbol_def)
  show ?thesis
  proof (cases "\<exists>m \<in> set ms. 0 < m")
    case True
    with forEach_best_spec [OF run] obtain j where "j < length ms" "s = int j"
      by auto
    with len d show ?thesis by simp
  next
    case False
    with forEach_best_spec [OF run] have "s = - 1" by auto
    with d show ?thesis by simp
  qed
qed

lemma sampleBuf_resetRxState: "sampleBuf (snd (resetRxState st)) = []"
  by (simp add: resetRxState_def)

lemma sampleBuf_finalizePacket: "sampleBuf (snd (finalizePacket st)) = []"
  by (simp add: finalizePacket_def Let_def split_beta sampleBuf_resetRxState split: option.splits)

lemma startSampling_tick_samples_in_range:
  assumes len: "length ms = 16"
    and inv: "\<forall>s. Some s \<in> set (sampleBuf st) \<longrightarrow> - 1 \<le> s \<and> s \<le> 15"
  shows "\<forall>s. Some s \<in> set (sampleBuf (snd (startSampling_tick sd THRESH now mp (Some ms) st)))
           \<longrightarrow> - 1 \<le> s \<and> s \<le> 15"
proof -
  obtain det where det: "detectSymbol (Some ms) = Some det"
    by (cases "forEach_best ms 0 (- 1, 0)") (simp add: detectSymbol_def)
  have pushed: "- 1 \<le> symbol det \<and> symbol det \<le> 15"
    using detectSymbol_symbol_range [OF det] len by simp
  show ?thesis
  proof (cases "rxState st")
    case RX_IDLE
    with det inv show ?thesis
      by (simp add: startSampling_tick_def Let_def)
  next
    case RX_PREAMBLE
    with det inv show ?thesis
      by (simp add: startSampling_tick_def Let_def)
  next
    case RX_DATA
    with det inv pushed show ?thesis
      by (auto simp add: startSampling_tick_def dataTick_def Let_def split_beta
          sampleBuf_resetRxState sampleBuf_finalizePacket)
  qed
qed

lemma silence_scan:
  "detectSymbol (Some [0, 0, 0, 0, 0, 0, 0, 0, 0, 0, 0, 0, 0, 0, 0, 0]) =
     Some \<lparr> symbol = - 1, magnitude = 0, mags = [0, 0, 0, 0, 0, 0, 0, 0, 0, 0, 0, 0, 0, 0, 0, 0] \<rparr>"
  by (simp add: detectSymbol_def)

lemma tone5_scan:
  "detectSymbol (Some [0, 0, 0, 0, 0, 1, 0, 0, 0, 0, 0, 0, 0, 0, 0, 0]) =
     Some \<lparr> symbol = 5, magnitude = 1, mags = [0, 0, 0, 0, 0, 1, 0, 0, 0, 0, 0, 0, 0, 0, 0, 0] \<rparr>"
  by (simp add: detectSymbol_def)

lemma replicate_16: "replicate 16 x = [x, x, x, x, x, x, x, x, x, x, x, x, x, x, x, x]"
  by (simp add: numeral_eq_Suc)

text \<open>
  C4. When a symbol window closes in the DATA state and the window buffer holds at least
  one valid (non-null) sample, the value appended to the nibble accumulator is the symbol
  in \<open>[0,15]\<close> that occurs most often in the buffer, ties going to the lowest symbol; the
  no-signal markers of the buffer take no part in the count. The buffer \<open>buf\<close> is the
  session's buffer with the sample of this tick pushed, and its samples are values of the
  detector, hence at most 15 (a sample of -1 counts for no symbol). The window closes
  when the computed time since the last boundary has reached the symbol duration. The
  accumulator with the winner appended is what \<^verbatim>\<open>liveUpdateRxImage\<close> then sees, and below
  one header's worth of nibbles it is the accumulator after the tick.
\<close>

theorem window_close_majority_vote:
  assumes data: "rxState st = RX_DATA"
    and det: "detectSymbol analysed = Some det"
    and live: "\<not> fsub now (rxDataStart st) > 45000"
    and buf: "buf = sampleBuf st @ [if magnitude det > THRESH then Some (symbol det) else None]"
    and closes: "fsub now (lastSymTime st) \<ge> sd"
    and some: "\<exists>s. Some s \<in> set buf"
    and rng: "\<forall>s. Some s \<in> set buf \<longrightarrow> s \<le> 15"
  shows "\<exists>w. 0 \<le> w \<and> w \<le> 15
           \<and> (\<forall>v. 0 \<le> v \<and> v \<le> 15 \<longrightarrow> count_list buf (Some v) \<le> count_list buf (Some w))
           \<and> (\<forall>v. 0 \<le> v \<and> v \<le> 15 \<and> count_list buf (Some v) = count_list buf (Some w)
                  \<longrightarrow> w \<le> v)
           \<and> snd (startSampling_tick sd THRESH now mp analysed st) =
               (snd (liveUpdateRxImage
                  (st\<lparr> sampleBuf := buf, rxNibbles := rxNibbles st @ [w], silenceCount := 0 \<rparr>)))
                 \<lparr> sampleBuf := [], lastSymTime := now \<rparr>
           \<and> (length (rxNibbles st) < 31 \<longrightarrow>
                rxNibbles (snd (startSampling_tick sd THRESH now mp analysed st))
                  = rxNibbles st @ [w])"
proof -
  define w where "w = windowWinner (validSamples buf)"
  have ne: "validSamples buf \<noteq> []"
    using some set_validSamples [of buf] by (metis empty_iff empty_set mem_Collect_eq)
  have rng': "\<forall>s\<in>set (validSamples buf). s \<le> 15"
    using rng by (simp add: set_validSamples)
  note vote = windowWinner_spec [OF rng', folded w_def, unfolded count_validSamples]
  have step: "snd (startSampling_tick sd THRESH now mp analysed st) =
             (snd (liveUpdateRxImage
                (st\<lparr> sampleBuf := buf, rxNibbles := rxNibbles st @ [w], silenceCount := 0 \<rparr>)))
               \<lparr> sampleBuf := [], lastSymTime := now \<rparr>"
  proof (cases "magnitude det > THRESH")
    case True
    with data det live closes ne [unfolded buf] show ?thesis
      by (simp add: startSampling_tick_def dataTick_def buf w_def Let_def split_beta)
  next
    case False
    with data det live closes ne [unfolded buf] show ?thesis
      by (simp add: startSampling_tick_def dataTick_def buf w_def Let_def split_beta)
  qed
  have short: "rxNibbles (snd (startSampling_tick sd THRESH now mp analysed st)) = rxNibbles st @ [w]"
    if "length (rxNibbles st) < 31"
    using that unfolding step by (simp add: liveUpdateRxImage_def HEADER_LEN_def)
  from vote step short show ?thesis by blast
qed

theorem window_close_majority_vote_witness:
  "rxNibbles (snd (startSampling_tick 120 (1 / 32) 1000 0 (Some [0, 0, 0, 0, 0, 0, 0, 0, 0, 0, 0, 0, 0, 0, 0, 0])
      \<lparr> rxState = RX_DATA, rxNibbles = [], sampleBuf = [Some 3, Some 3, Some 3, Some 7], lastSymTime = 880,
        preambleAt = 100, preambleEndsAt = 640, silenceCount = 0, rxDataStart = 640 \<rparr>)) = [3]
   \<and> rxNibbles (snd (startSampling_tick 120 (1 / 32) 1000 0 (Some [0, 0, 0, 0, 0, 1, 0, 0, 0, 0, 0, 0, 0, 0, 0, 0])
      \<lparr> rxState = RX_DATA, rxNibbles = [], sampleBuf = [Some 2, Some 2, Some 5], lastSymTime = 880,
        preambleAt = 100, preambleEndsAt = 640, silenceCount = 0, rxDataStart = 640 \<rparr>)) = [2]"
proof -
  have "rxNibbles (snd (startSampling_tick 120 (1 / 32) 1000 0 (Some [0, 0, 0, 0, 0, 0, 0, 0, 0, 0, 0, 0, 0, 0, 0, 0])
      \<lparr> rxState = RX_DATA, rxNibbles = [], sampleBuf = [Some 3, Some 3, Some 3, Some 7], lastSymTime = 880,
        preambleAt = 100, preambleEndsAt = 640, silenceCount = 0, rxDataStart = 640 \<rparr>)) = [3]"
  proof -
    from window_close_majority_vote [where st = "\<lparr> rxState = RX_DATA, rxNibbles = [], sampleBuf = [Some 3, Some 3, Some 3, Some 7], lastSymTime = 880,
        preambleAt = 100, preambleEndsAt = 640, silenceCount = 0, rxDataStart = 640 \<rparr>"
        and analysed = "Some [0, 0, 0, 0, 0, 0, 0, 0, 0, 0, 0, 0, 0, 0, 0, 0]"
        and det = "\<lparr> symbol = - 1, magnitude = 0, mags = [0, 0, 0, 0, 0, 0, 0, 0, 0, 0, 0, 0, 0, 0, 0, 0] \<rparr>"
        and now = 1000 and THRESH = "1 / 32" and sd = 120 and mp = 0
        and buf = "[Some 3, Some 3, Some 3, Some 7, None]"]
    obtain w where w: "0 \<le> w" "w \<le> 15"
      "\<forall>v::int. 0 \<le> v \<and> v \<le> 15 \<longrightarrow>
         count_list [Some 3, Some 3, Some 3, Some 7, None] (Some v)
           \<le> count_list [Some 3, Some 3, Some 3, Some 7, None] (Some w)"
      "rxNibbles (snd (startSampling_tick 120 (1 / 32) 1000 0 (Some [0, 0, 0, 0, 0, 0, 0, 0, 0, 0, 0, 0, 0, 0, 0, 0])
      \<lparr> rxState = RX_DATA, rxNibbles = [], sampleBuf = [Some 3, Some 3, Some 3, Some 7], lastSymTime = 880,
        preambleAt = 100, preambleEndsAt = 640, silenceCount = 0, rxDataStart = 640 \<rparr>)) = [w]"
      by (auto simp add: silence_scan double_defs double_round_int)
    from w(3) [rule_format, of 3] have "w = 3"
      by (simp split: if_splits)
    with w(4) show ?thesis by simp
  qed
  moreover have "rxNibbles (snd (startSampling_tick 120 (1 / 32) 1000 0 (Some [0, 0, 0, 0, 0, 1, 0, 0, 0, 0, 0, 0, 0, 0, 0, 0])
      \<lparr> rxState = RX_DATA, rxNibbles = [], sampleBuf = [Some 2, Some 2, Some 5], lastSymTime = 880,
        preambleAt = 100, preambleEndsAt = 640, silenceCount = 0, rxDataStart = 640 \<rparr>)) = [2]"
  proof -
    from window_close_majority_vote [where st = "\<lparr> rxState = RX_DATA, rxNibbles = [], sampleBuf = [Some 2, Some 2, Some 5], lastSymTime = 880,
        preambleAt = 100, preambleEndsAt = 640, silenceCount = 0, rxDataStart = 640 \<rparr>"
        and analysed = "Some [0, 0, 0, 0, 0, 1, 0, 0, 0, 0, 0, 0, 0, 0, 0, 0]"
        and det = "\<lparr> symbol = 5, magnitude = 1, mags = [0, 0, 0, 0, 0, 1, 0, 0, 0, 0, 0, 0, 0, 0, 0, 0] \<rparr>"
        and now = 1000 and THRESH = "1 / 32" and sd = 120 and mp = 0
        and buf = "[Some 2, Some 2, Some 5, Some 5]"]
    obtain w where w: "0 \<le> w" "w \<le> 15"
      "\<forall>v::int. 0 \<le> v \<and> v \<le> 15 \<longrightarrow>
         count_list [Some 2, Some 2, Some 5, Some 5] (Some v)
           \<le> count_list [Some 2, Some 2, Some 5, Some 5] (Some w)"
      "\<forall>v::int. 0 \<le> v \<and> v \<le> 15
           \<and> count_list [Some 2, Some 2, Some 5, Some 5] (Some v)
             = count_list [Some 2, Some 2, Some 5, Some 5] (Some w) \<longrightarrow> w \<le> v"
      "rxNibbles (snd (startSampling_tick 120 (1 / 32) 1000 0 (Some [0, 0, 0, 0, 0, 1, 0, 0, 0, 0, 0, 0, 0, 0, 0, 0])
      \<lparr> rxState = RX_DATA, rxNibbles = [], sampleBuf = [Some 2, Some 2, Some 5], lastSymTime = 880,
        preambleAt = 100, preambleEndsAt = 640, silenceCount = 0, rxDataStart = 640 \<rparr>)) = [w]"
      by (auto simp add: tone5_scan double_defs double_round_int)
    from w(3) [rule_format, of 2] have "w = 2 \<or> w = 5"
      by (simp split: if_splits)
    moreover from w(4) [rule_format, of 2] have "w \<noteq> 5"
      by (auto split: if_splits)
    ultimately have "w = 2" by simp
    with w(5) show ?thesis by simp
  qed
  ultimately show ?thesis by blast
qed

section \<open>Preamble confirmation and the timed wait\<close>

text \<open>
  C5 as stated: the data-start time is the confirmation time plus the preamble duration
  plus the guard gap. With the tone first heard at 100 ms and confirmed by the tick at
  300 ms (symbol duration 120 ms), the session's \<^verbatim>\<open>preambleEndsAt\<close> is
  \<open>100 + 4 * 120 + 60 = 640\<close>, not \<open>300 + 4 * 120 + 60 = 840\<close>.
\<close>

theorem preamble_confirm_counterexample:
  "rxState (snd (startSampling_tick 120 (1 / 32) 300 1 (Some [0, 0, 0, 0, 0, 0, 0, 0, 0, 0, 0, 0, 0, 0, 0, 0])
      \<lparr> rxState = RX_IDLE, rxNibbles = [], sampleBuf = [], lastSymTime = 0,
        preambleAt = 100, preambleEndsAt = 0, silenceCount = 0, rxDataStart = 0 \<rparr>)) = RX_PREAMBLE
   \<and> preambleEndsAt (snd (startSampling_tick 120 (1 / 32) 300 1 (Some [0, 0, 0, 0, 0, 0, 0, 0, 0, 0, 0, 0, 0, 0, 0, 0])
      \<lparr> rxState = RX_IDLE, rxNibbles = [], sampleBuf = [], lastSymTime = 0,
        preambleAt = 100, preambleEndsAt = 0, silenceCount = 0, rxDataStart = 0 \<rparr>)) = 640
   \<and> fadd (fadd 300 (fmul (real PREAMBLE_SYMS) 120)) 60 = 840"
  by (simp add: startSampling_tick_def silence_scan PREAMBLE_SYMS_def double_defs
      double_round_int)

text \<open>
  C5, amended. \<^verbatim>\<open>preambleAt\<close> holds the clock reading at which the preamble tone was first
  detected: an IDLE tick with the preamble magnitude above the threshold sets it to its
  clock reading when it is 0 and keeps it otherwise, an IDLE tick at or below the
  threshold sets it back to 0. The preamble is confirmed by an IDLE tick above the
  threshold exactly when the computed time since \<^verbatim>\<open>preambleAt\<close> exceeds one symbol
  duration, and the data-start time then computed is \<^verbatim>\<open>preambleAt\<close> plus the preamble
  duration (\<^verbatim>\<open>PREAMBLE_SYMS\<close> symbol durations) plus the fixed 60 ms guard gap, each sum and
  product rounded as the code's double arithmetic rounds it. The machine then waits in
  the time-based state: a tick before that instant leaves the session unchanged, a tick
  at or after it enters DATA.
\<close>

theorem preamble_confirm_data_start:
  assumes det: "detectSymbol analysed = Some det"
    and heard: "heard = (if preambleAt st = 0 then now else preambleAt st)"
  shows "(rxState st = RX_IDLE \<and> mp > THRESH \<and> fsub now heard > fmul sd 1 \<longrightarrow>
            startSampling_tick sd THRESH now mp analysed st =
              ([SetDebugMag mp (magnitude det) RX_IDLE, SetSymCells (symCells THRESH det),
                SetRxStatus CLS_WARN PREAMBLE_DETECTED],
               st\<lparr> preambleAt := heard,
                   preambleEndsAt := fadd (fadd heard (fmul (real PREAMBLE_SYMS) sd)) 60,
                   rxState := RX_PREAMBLE \<rparr>))
       \<and> (rxState st = RX_IDLE \<and> mp > THRESH \<and> \<not> fsub now heard > fmul sd 1 \<longrightarrow>
            startSampling_tick sd THRESH now mp analysed st =
              ([SetDebugMag mp (magnitude det) RX_IDLE, SetSymCells (symCells THRESH det)],
               st\<lparr> preambleAt := heard \<rparr>))
       \<and> (rxState st = RX_IDLE \<and> \<not> mp > THRESH \<longrightarrow>
            startSampling_tick sd THRESH now mp analysed st =
              ([SetDebugMag mp (magnitude det) RX_IDLE, SetSymCells (symCells THRESH det)],
               st\<lparr> preambleAt := 0 \<rparr>))
       \<and> (rxState st = RX_PREAMBLE \<and> now < preambleEndsAt st \<longrightarrow>
            startSampling_tick sd THRESH now mp analysed st =
              ([SetDebugMag mp (magnitude det) RX_PREAMBLE, SetSymCells (symCells THRESH det)],
               st))
       \<and> (rxState st = RX_PREAMBLE \<and> now \<ge> preambleEndsAt st \<longrightarrow>
            startSampling_tick sd THRESH now mp analysed st =
              ([SetDebugMag mp (magnitude det) RX_PREAMBLE, SetSymCells (symCells THRESH det),
                SetRxStatus CLS_INFO RECEIVING_DATA],
               st\<lparr> rxState := RX_DATA, rxNibbles := [], sampleBuf := [], lastSymTime := now,
                   silenceCount := 0, rxDataStart := now \<rparr>))"
  using det by (auto simp add: startSampling_tick_def heard Let_def)

theorem preamble_confirm_data_start_witness:
  "snd (startSampling_tick 120 (1 / 32) 150 1 (Some [0, 0, 0, 0, 0, 0, 0, 0, 0, 0, 0, 0, 0, 0, 0, 0])
      \<lparr> rxState = RX_IDLE, rxNibbles = [], sampleBuf = [], lastSymTime = 0,
        preambleAt = 0, preambleEndsAt = 0, silenceCount = 0, rxDataStart = 0 \<rparr>) =
      \<lparr> rxState = RX_IDLE, rxNibbles = [], sampleBuf = [], lastSymTime = 0,
        preambleAt = 150, preambleEndsAt = 0, silenceCount = 0, rxDataStart = 0 \<rparr>
   \<and> snd (startSampling_tick 120 (1 / 32) 200 1 (Some [0, 0, 0, 0, 0, 0, 0, 0, 0, 0, 0, 0, 0, 0, 0, 0])
      \<lparr> rxState = RX_IDLE, rxNibbles = [], sampleBuf = [], lastSymTime = 0,
        preambleAt = 100, preambleEndsAt = 0, silenceCount = 0, rxDataStart = 0 \<rparr>) =
      \<lparr> rxState = RX_IDLE, rxNibbles = [], sampleBuf = [], lastSymTime = 0,
        preambleAt = 100, preambleEndsAt = 0, silenceCount = 0, rxDataStart = 0 \<rparr>
   \<and> snd (startSampling_tick 120 (1 / 32) 300 1 (Some [0, 0, 0, 0, 0, 0, 0, 0, 0, 0, 0, 0, 0, 0, 0, 0])
      \<lparr> rxState = RX_IDLE, rxNibbles = [], sampleBuf = [], lastSymTime = 0,
        preambleAt = 100, preambleEndsAt = 0, silenceCount = 0, rxDataStart = 0 \<rparr>) =
      \<lparr> rxState = RX_PREAMBLE, rxNibbles = [], sampleBuf = [], lastSymTime = 0,
        preambleAt = 100, preambleEndsAt = 640, silenceCount = 0, rxDataStart = 0 \<rparr>
   \<and> snd (startSampling_tick 120 (1 / 32) 200 0 (Some [0, 0, 0, 0, 0, 0, 0, 0, 0, 0, 0, 0, 0, 0, 0, 0])
      \<lparr> rxState = RX_IDLE, rxNibbles = [], sampleBuf = [], lastSymTime = 0,
        preambleAt = 100, preambleEndsAt = 0, silenceCount = 0, rxDataStart = 0 \<rparr>) =
      \<lparr> rxState = RX_IDLE, rxNibbles = [], sampleBuf = [], lastSymTime = 0,
        preambleAt = 0, preambleEndsAt = 0, silenceCount = 0, rxDataStart = 0 \<rparr>
   \<and> snd (startSampling_tick 120 (1 / 32) 600 1 (Some [0, 0, 0, 0, 0, 0, 0, 0, 0, 0, 0, 0, 0, 0, 0, 0])
      \<lparr> rxState = RX_PREAMBLE, rxNibbles = [], sampleBuf = [], lastSymTime = 0,
        preambleAt = 100, preambleEndsAt = 640, silenceCount = 0, rxDataStart = 0 \<rparr>) =
      \<lparr> rxState = RX_PREAMBLE, rxNibbles = [], sampleBuf = [], lastSymTime = 0,
        preambleAt = 100, preambleEndsAt = 640, silenceCount = 0, rxDataStart = 0 \<rparr>
   \<and> snd (startSampling_tick 120 (1 / 32) 650 0 (Some [0, 0, 0, 0, 0, 0, 0, 0, 0, 0, 0, 0, 0, 0, 0, 0])
      \<lparr> rxState = RX_PREAMBLE, rxNibbles = [], sampleBuf = [], lastSymTime = 0,
        preambleAt = 100, preambleEndsAt = 640, silenceCount = 0, rxDataStart = 0 \<rparr>) =
      \<lparr> rxState = RX_DATA, rxNibbles = [], sampleBuf = [], lastSymTime = 650,
        preambleAt = 100, preambleEndsAt = 640, silenceCount = 0, rxDataStart = 650 \<rparr>"
  using preamble_confirm_data_start [where analysed = "Some [0, 0, 0, 0, 0, 0, 0, 0, 0, 0, 0, 0, 0, 0, 0, 0]"
      and det = "\<lparr> symbol = - 1, magnitude = 0, mags = [0, 0, 0, 0, 0, 0, 0, 0, 0, 0, 0, 0, 0, 0, 0, 0] \<rparr>"
      and heard = 150 and now = 150 and sd = 120 and THRESH = "1 / 32" and mp = 1
      and st = "\<lparr> rxState = RX_IDLE, rxNibbles = [], sampleBuf = [], lastSymTime = 0,
        preambleAt = 0, preambleEndsAt = 0, silenceCount = 0, rxDataStart = 0 \<rparr>"]
    preamble_confirm_data_start [where analysed = "Some [0, 0, 0, 0, 0, 0, 0, 0, 0, 0, 0, 0, 0, 0, 0, 0]"
      and det = "\<lparr> symbol = - 1, magnitude = 0, mags = [0, 0, 0, 0, 0, 0, 0, 0, 0, 0, 0, 0, 0, 0, 0, 0] \<rparr>"
      and heard = 100 and now = 200 and sd = 120 and THRESH = "1 / 32" and mp = 1
      and st = "\<lparr> rxState = RX_IDLE, rxNibbles = [], sampleBuf = [], lastSymTime = 0,
        preambleAt = 100, preambleEndsAt = 0, silenceCount = 0, rxDataStart = 0 \<rparr>"]
    preamble_confirm_data_start [where analysed = "Some [0, 0, 0, 0, 0, 0, 0, 0, 0, 0, 0, 0, 0, 0, 0, 0]"
      and det = "\<lparr> symbol = - 1, magnitude = 0, mags = [0, 0, 0, 0, 0, 0, 0, 0, 0, 0, 0, 0, 0, 0, 0, 0] \<rparr>"
      and heard = 100 and now = 300 and sd = 120 and THRESH = "1 / 32" and mp = 1
      and st = "\<lparr> rxState = RX_IDLE, rxNibbles = [], sampleBuf = [], lastSymTime = 0,
        preambleAt = 100, preambleEndsAt = 0, silenceCount = 0, rxDataStart = 0 \<rparr>"]
    preamble_confirm_data_start [where analysed = "Some [0, 0, 0, 0, 0, 0, 0, 0, 0, 0, 0, 0, 0, 0, 0, 0]"
      and det = "\<lparr> symbol = - 1, magnitude = 0, mags = [0, 0, 0, 0, 0, 0, 0, 0, 0, 0, 0, 0, 0, 0, 0, 0] \<rparr>"
      and heard = 100 and now = 200 and sd = 120 and THRESH = "1 / 32" and mp = 0
      and st = "\<lparr> rxState = RX_IDLE, rxNibbles = [], sampleBuf = [], lastSymTime = 0,
        preambleAt = 100, preambleEndsAt = 0, silenceCount = 0, rxDataStart = 0 \<rparr>"]
    preamble_confirm_data_start [where analysed = "Some [0, 0, 0, 0, 0, 0, 0, 0, 0, 0, 0, 0, 0, 0, 0, 0]"
      and det = "\<lparr> symbol = - 1, magnitude = 0, mags = [0, 0, 0, 0, 0, 0, 0, 0, 0, 0, 0, 0, 0, 0, 0, 0] \<rparr>"
      and heard = 100 and now = 600 and sd = 120 and THRESH = "1 / 32" and mp = 1
      and st = "\<lparr> rxState = RX_PREAMBLE, rxNibbles = [], sampleBuf = [], lastSymTime = 0,
        preambleAt = 100, preambleEndsAt = 640, silenceCount = 0, rxDataStart = 0 \<rparr>"]
    preamble_confirm_data_start [where analysed = "Some [0, 0, 0, 0, 0, 0, 0, 0, 0, 0, 0, 0, 0, 0, 0, 0]"
      and det = "\<lparr> symbol = - 1, magnitude = 0, mags = [0, 0, 0, 0, 0, 0, 0, 0, 0, 0, 0, 0, 0, 0, 0, 0] \<rparr>"
      and heard = 100 and now = 650 and sd = 120 and THRESH = "1 / 32" and mp = 0
      and st = "\<lparr> rxState = RX_PREAMBLE, rxNibbles = [], sampleBuf = [], lastSymTime = 0,
        preambleAt = 100, preambleEndsAt = 640, silenceCount = 0, rxDataStart = 0 \<rparr>"]
  by (simp add: silence_scan PREAMBLE_SYMS_def double_defs double_round_int)

section \<open>Finalize\<close>

lemma js_slice_prefix: "0 \<le> n \<Longrightarrow> js_slice xs 0 n = take (nat n) xs"
  by (auto simp add: js_slice_def Let_def min_def)

lemma js_slice_from:
  "0 \<le> a \<Longrightarrow> a \<le> b \<Longrightarrow> js_slice xs a b = take (nat (b - a)) (drop (nat a) xs)"
  by (auto simp add: js_slice_def Let_def min_def)

text \<open>
  C6. At finalize, after the nibble accumulator is truncated to an even length, fewer
  than 32 remaining nibbles make the machine emit INCOMPLETE (with the number of whole
  bytes received), reset the session to IDLE with an empty accumulator and schedule the
  delayed "listening" status; no header is parsed and no payload is decoded.
\<close>

theorem finalizePacket_incomplete:
  assumes "2 * (length (rxNibbles st) div 2) < 32"
  shows "finalizePacket st =
           ([SetRxStatus CLS_WARN (INCOMPLETE (length (rxNibbles st) div 2)),
             SetRxImgProg False 0 LBL_RECEIVING, SetTimeoutListening 3000],
            st\<lparr> rxState := RX_IDLE, rxNibbles := [], sampleBuf := [], preambleAt := 0,
                preambleEndsAt := 0, silenceCount := 0, rxDataStart := 0 \<rparr>)"
proof -
  have trim: "js_slice (rxNibbles st) 0 (int (length (rxNibbles st) div 2) * 2)
              = take (2 * (length (rxNibbles st) div 2)) (rxNibbles st)"
    by (simp add: js_slice_prefix nat_mult_distrib mult.commute)
  have len: "length (take (2 * (length (rxNibbles st) div 2)) (rxNibbles st))
             = 2 * (length (rxNibbles st) div 2)"
    by simp
  show ?thesis
    using assms unfolding finalizePacket_def trim Let_def len
    by (simp add: HEADER_LEN_def resetRxState_def)
qed

theorem finalizePacket_incomplete_witness:
  "2 * (length (rxNibbles \<lparr> rxState = RX_DATA, rxNibbles = [4, 1, 4, 3, 5], sampleBuf = [None], lastSymTime = 0,
        preambleAt = 100, preambleEndsAt = 640, silenceCount = 5, rxDataStart = 640 \<rparr>) div 2) < 32
   \<and> finalizePacket \<lparr> rxState = RX_DATA, rxNibbles = [4, 1, 4, 3, 5], sampleBuf = [None], lastSymTime = 0,
        preambleAt = 100, preambleEndsAt = 640, silenceCount = 5, rxDataStart = 640 \<rparr> =
       ([SetRxStatus CLS_WARN (INCOMPLETE 2), SetRxImgProg False 0 LBL_RECEIVING,
         SetTimeoutListening 3000],
        \<lparr> rxState = RX_IDLE, rxNibbles = [], sampleBuf = [], lastSymTime = 0,
        preambleAt = 0, preambleEndsAt = 0, silenceCount = 0, rxDataStart = 0 \<rparr>)"
  using finalizePacket_incomplete [of "\<lparr> rxState = RX_DATA, rxNibbles = [4, 1, 4, 3, 5], sampleBuf = [None], lastSymTime = 0,
        preambleAt = 100, preambleEndsAt = 640, silenceCount = 5, rxDataStart = 640 \<rparr>"]
  by simp

text \<open>
  With a header whose declared length is not negative as \<^verbatim>\<open>parseHeader\<close> reads it (below
  \<open>2^31\<close>), the text payload is the received bytes from offset 16, at most the declared
  number of them.
\<close>

lemma finalizePacket_text_payload:
  assumes enough: "32 \<le> 2 * (length (rxNibbles st) div 2)"
    and bytes: "allBytes = nibblesToBytes (take (2 * (length (rxNibbles st) div 2)) (rxNibbles st))"
    and hdr: "parseHeader allBytes = Some hdr"
    and is_text: "type hdr = TYPE_TEXT"
    and nonneg: "0 \<le> payloadLen hdr"
  shows "fst (finalizePacket st) =
           [SetRxOutput (OUT_TEXT (take (nat (payloadLen hdr)) (drop 16 allBytes))),
            SetRxImgSrcNull,
            SetRxStatus CLS_OK (TEXT_RECEIVED (take (nat (payloadLen hdr)) (drop 16 allBytes))),
            SetRxImgProg False 0 LBL_RECEIVING, SetTimeoutListening 3000]"
proof -
  have trim: "js_slice (rxNibbles st) 0 (int (length (rxNibbles st) div 2) * 2)
              = take (2 * (length (rxNibbles st) div 2)) (rxNibbles st)"
    by (simp add: js_slice_prefix nat_mult_distrib mult.commute)
  have len: "length (take (2 * (length (rxNibbles st) div 2)) (rxNibbles st))
             = 2 * (length (rxNibbles st) div 2)"
    by simp
  have payload: "js_slice allBytes (int HEADER_LEN) (int HEADER_LEN + payloadLen hdr)
                 = take (nat (payloadLen hdr)) (drop 16 allBytes)"
    using nonneg by (simp add: js_slice_from HEADER_LEN_def)
  show ?thesis
    using enough hdr is_text payload
    unfolding finalizePacket_def trim Let_def len bytes [symmetric]
    by (simp add: HEADER_LEN_def resetRxState_def)
qed

text \<open>
  C7. The finalized payload is meant to be the received bytes from offset 16 up to 16
  plus the declared payload length, clamped to the bytes available. Here the header
  declares the length 0xFFFFFFEF and two payload bytes 0x48 0x69 were received:
  \<^verbatim>\<open>parseHeader\<close> yields the length -17, \<^verbatim>\<open>slice(16, -1)\<close> counts its end from the back, and
  the payload handed on is the single byte 0x48.
\<close>

theorem finalizePacket_length_top_bit:
  "nibblesToBytes [4, 1, 4, 3, 5, 3, 5, 4, 5, 4, 15, 15, 15, 15, 15, 15, 14, 15,
      0, 0, 0, 0, 0, 0, 0, 0, 0, 0, 0, 0, 0, 0, 4, 8, 6, 9] =
     [0x41, 0x43, 0x53, 0x54, 0x54, 0xff, 0xff, 0xff, 0xef, 0, 0, 0, 0, 0, 0, 0, 0x48, 0x69]
   \<and> finalizePacket \<lparr> rxState = RX_DATA, rxNibbles = [4, 1, 4, 3, 5, 3, 5, 4, 5, 4, 15, 15, 15, 15, 15, 15, 14, 15,
      0, 0, 0, 0, 0, 0, 0, 0, 0, 0, 0, 0, 0, 0, 4, 8, 6, 9], sampleBuf = [], lastSymTime = 0,
        preambleAt = 0, preambleEndsAt = 0, silenceCount = 5, rxDataStart = 0 \<rparr> =
     ([SetRxOutput (OUT_TEXT [0x48]), SetRxImgSrcNull,
       SetRxStatus CLS_OK (TEXT_RECEIVED [0x48]),
       SetRxImgProg False 0 LBL_RECEIVING, SetTimeoutListening 3000],
      \<lparr> rxState = RX_IDLE, rxNibbles = [], sampleBuf = [], lastSymTime = 0,
        preambleAt = 0, preambleEndsAt = 0, silenceCount = 0, rxDataStart = 0 \<rparr>)"
  by (simp add: finalizePacket_def js_slice_def parseHeader_def MAGIC_def HEADER_LEN_def
      TYPE_TEXT_def TYPE_IMAGE_def resetRxState_def upt_0_4 js_defs Let_def)

section \<open>Hard timeout\<close>

lemma resetRxState_no_timeout: "SetRxStatus c RX_TIMEOUT \<notin> set (fst (resetRxState st))"
  by (simp add: resetRxState_def)

lemma finalizePacket_no_timeout: "SetRxStatus c RX_TIMEOUT \<notin> set (fst (finalizePacket st))"
  by (simp add: finalizePacket_def resetRxState_def Let_def split_beta split: option.splits)

lemma liveUpdateRxImage_no_timeout:
  "SetRxStatus c RX_TIMEOUT \<notin> set (fst (liveUpdateRxImage st))"
  by (simp add: liveUpdateRxImage_def finalizePacket_no_timeout Let_def split_beta
      split: option.splits)

text \<open>
  C8. On a DATA-state tick (one that read a detection) where the elapsed time since
  \<^verbatim>\<open>rxDataStart\<close>, as the code computes it, exceeds 45 seconds, the machine emits exactly
  one TIMEOUT status, resets the session to IDLE and returns: the sample of this tick is
  not pushed, no window is closed and nothing else is reset. On every other DATA-state
  tick no TIMEOUT is emitted.
\<close>

theorem data_timeout_tick:
  assumes "rxState st = RX_DATA" and "detectSymbol analysed = Some det"
  shows "(fsub now (rxDataStart st) > 45000 \<longrightarrow>
            startSampling_tick sd THRESH now mp analysed st =
              ([SetDebugMag mp (magnitude det) RX_DATA, SetSymCells (symCells THRESH det),
                SetRxStatus CLS_WARN RX_TIMEOUT, SetRxImgProg False 0 LBL_RECEIVING,
                SetTimeoutListening 2000],
               st\<lparr> rxState := RX_IDLE, rxNibbles := [], sampleBuf := [], preambleAt := 0,
                   preambleEndsAt := 0, silenceCount := 0, rxDataStart := 0 \<rparr>)
            \<and> length (filter (\<lambda>e. e = SetRxStatus CLS_WARN RX_TIMEOUT)
                 (fst (startSampling_tick sd THRESH now mp analysed st))) = 1)
       \<and> (\<not> fsub now (rxDataStart st) > 45000 \<longrightarrow>
            SetRxStatus CLS_WARN RX_TIMEOUT
              \<notin> set (fst (startSampling_tick sd THRESH now mp analysed st)))"
proof -
  have late: "startSampling_tick sd THRESH now mp analysed st =
              ([SetDebugMag mp (magnitude det) RX_DATA, SetSymCells (symCells THRESH det),
                SetRxStatus CLS_WARN RX_TIMEOUT, SetRxImgProg False 0 LBL_RECEIVING,
                SetTimeoutListening 2000],
               st\<lparr> rxState := RX_IDLE, rxNibbles := [], sampleBuf := [], preambleAt := 0,
                   preambleEndsAt := 0, silenceCount := 0, rxDataStart := 0 \<rparr>)"
    if "fsub now (rxDataStart st) > 45000"
    using assms that by (simp add: startSampling_tick_def dataTick_def resetRxState_def)
  have early: "SetRxStatus CLS_WARN RX_TIMEOUT
              \<notin> set (fst (startSampling_tick sd THRESH now mp analysed st))"
    if "\<not> fsub now (rxDataStart st) > 45000"
    using assms that
    by (simp add: startSampling_tick_def dataTick_def Let_def split_beta
        resetRxState_no_timeout finalizePacket_no_timeout liveUpdateRxImage_no_timeout)
  show ?thesis
    using late early by simp
qed

theorem data_timeout_tick_witness:
  "startSampling_tick 120 (1 / 32) 45641 0 (Some [0, 0, 0, 0, 0, 1, 0, 0, 0, 0, 0, 0, 0, 0, 0, 0])
      \<lparr> rxState = RX_DATA, rxNibbles = [4, 1], sampleBuf = [Some 3], lastSymTime = 45000,
        preambleAt = 100, preambleEndsAt = 640, silenceCount = 0, rxDataStart = 640 \<rparr> =
     ([SetDebugMag 0 1 RX_DATA,
       SetSymCells (symCells (1 / 32) \<lparr> symbol = 5, magnitude = 1, mags = [0, 0, 0, 0, 0, 1, 0, 0, 0, 0, 0, 0, 0, 0, 0, 0] \<rparr>),
       SetRxStatus CLS_WARN RX_TIMEOUT, SetRxImgProg False 0 LBL_RECEIVING,
       SetTimeoutListening 2000],
      \<lparr> rxState = RX_IDLE, rxNibbles = [], sampleBuf = [], lastSymTime = 45000,
        preambleAt = 0, preambleEndsAt = 0, silenceCount = 0, rxDataStart = 0 \<rparr>)
   \<and> SetRxStatus CLS_WARN RX_TIMEOUT
       \<notin> set (fst (startSampling_tick 120 (1 / 32) 45640 0 (Some [0, 0, 0, 0, 0, 1, 0, 0, 0, 0, 0, 0, 0, 0, 0, 0])
      \<lparr> rxState = RX_DATA, rxNibbles = [4, 1], sampleBuf = [Some 3], lastSymTime = 45000,
        preambleAt = 100, preambleEndsAt = 640, silenceCount = 0, rxDataStart = 640 \<rparr>))"
  using data_timeout_tick [where st = "\<lparr> rxState = RX_DATA, rxNibbles = [4, 1], sampleBuf = [Some 3], lastSymTime = 45000,
        preambleAt = 100, preambleEndsAt = 640, silenceCount = 0, rxDataStart = 640 \<rparr>"
      and analysed = "Some [0, 0, 0, 0, 0, 1, 0, 0, 0, 0, 0, 0, 0, 0, 0, 0]"
      and det = "\<lparr> symbol = 5, magnitude = 1, mags = [0, 0, 0, 0, 0, 1, 0, 0, 0, 0, 0, 0, 0, 0, 0, 0] \<rparr>"
      and now = 45641 and sd = 120 and THRESH = "1 / 32" and mp = 0]
    data_timeout_tick [where st = "\<lparr> rxState = RX_DATA, rxNibbles = [4, 1], sampleBuf = [Some 3], lastSymTime = 45000,
        preambleAt = 100, preambleEndsAt = 640, silenceCount = 0, rxDataStart = 640 \<rparr>"
      and analysed = "Some [0, 0, 0, 0, 0, 1, 0, 0, 0, 0, 0, 0, 0, 0, 0, 0]"
      and det = "\<lparr> symbol = 5, magnitude = 1, mags = [0, 0, 0, 0, 0, 1, 0, 0, 0, 0, 0, 0, 0, 0, 0, 0] \<rparr>"
      and now = 45640 and sd = 120 and THRESH = "1 / 32" and mp = 0]
  by (simp add: tone5_scan double_defs double_round_int)

text \<open>
  At the boundary of the rounding the session is not reset: data phase entered at the
  double nearest to 640.002, tick at the double nearest to 45640.002, computed difference
  exactly 45000. The tick pushes its no-signal sample and stays in DATA.
\<close>

lemma data_tick_at_rounding_boundary:
  "startSampling_tick 120 (1 / 32) (6272714111339987 / 137438953472) 0 (Some [0, 0, 0, 0, 0, 0, 0, 0, 0, 0, 0, 0, 0, 0, 0, 0])
      \<lparr> rxState = RX_DATA, rxNibbles = [4, 1], sampleBuf = [], lastSymTime = (6272714111339987 / 137438953472),
        preambleAt = 100, preambleEndsAt = 640, silenceCount = 0, rxDataStart = (1407379281599791 / 2199023255552) \<rparr> =
     ([SetDebugMag 0 0 RX_DATA,
       SetSymCells (symCells (1 / 32) \<lparr> symbol = - 1, magnitude = 0, mags = [0, 0, 0, 0, 0, 0, 0, 0, 0, 0, 0, 0, 0, 0, 0, 0] \<rparr>)],
      \<lparr> rxState = RX_DATA, rxNibbles = [4, 1], sampleBuf = [None], lastSymTime = (6272714111339987 / 137438953472),
        preambleAt = 100, preambleEndsAt = 640, silenceCount = 0, rxDataStart = (1407379281599791 / 2199023255552) \<rparr>)"
  by (simp add: startSampling_tick_def dataTick_def silence_scan fsub_boundary fsub_self
      Let_def)

end
